theory Spec2Isabelle
  imports Main "HOL-Library.AList"
begin

section \<open>Errors\<close>

text \<open>
  The exceptions that \<^verbatim>\<open>utils.py\<close> can raise become values. The three
  \<^verbatim>\<open>raise ValueError(...)\<close> statements of \<^verbatim>\<open>plot_markers\<close> are told apart by a
  tag instead of their message text; \<open>LengthMismatch\<close> is the \<^verbatim>\<open>ValueError\<close> that
  pandas raises when a column of the wrong length is assigned or a data frame gets the
  wrong number of column names. \<open>ReError\<close> is \<^verbatim>\<open>re.error\<close>, \<open>TypeError\<close> is what
  \<^verbatim>\<open>list.append\<close> raises for a wrong number of arguments. \<open>Unmodelled\<close> is not
  an exception: it marks a pattern that uses regular-expression syntax outside the
  fragment modelled below, about which the model says nothing.
\<close>

datatype value_error =
    BasisNotComputed string
  | ProteinFieldsMissing string string
  | NothingToPlot
  | LengthMismatch

datatype py_error = ValueError value_error | TypeError | ReError | Unmodelled

section \<open>A fragment of Python's \<^verbatim>\<open>re\<close>\<close>

text \<open>
  The source matches names with \<^verbatim>\<open>re.compile(p, flags).search(l)\<close> and only tests
  the result for truth. The fragment modelled: literal characters, \<^verbatim>\<open>.\<close>, the
  anchors \<^verbatim>\<open>^\<close> and \<^verbatim>\<open>$\<close>, alternation \<^verbatim>\<open>|\<close>, the greedy quantifiers
  \<^verbatim>\<open>* + ?\<close> on a single character, and a backslash before a character that is
  neither a letter nor a digit. Groups, character classes, counted repeats, lazy
  quantifiers and the letter and digit escapes are outside the fragment
  (\<open>Unmodelled\<close>). Strings are ASCII; \<^verbatim>\<open>re.IGNORECASE\<close> folds \<^verbatim>\<open>A-Z\<close> onto
  \<^verbatim>\<open>a-z\<close>.
\<close>

datatype atom = Lit char | AnyChar

datatype item = Bol | Eol | Eos | One atom | Opt atom | Star atom | Plus atom

type_synonym regex = "item list list"

definition newline :: char where
  "newline = CHR 0x0A"

definition backslash :: char where
  "backslash = CHR 0x5C"

definition is_alnum :: "char \<Rightarrow> bool" where
  "is_alnum c =
     (let n = (of_char c :: nat)
      in (48 \<le> n \<and> n \<le> 57) \<or> (65 \<le> n \<and> n \<le> 90) \<or> (97 \<le> n \<and> n \<le> 122))"

definition lower_char :: "char \<Rightarrow> char" where
  "lower_char c =
     (let n = (of_char c :: nat)
      in if 65 \<le> n \<and> n \<le> 90 then char_of (n + 32) else c)"

definition fold_case :: "bool \<Rightarrow> char \<Rightarrow> char" where
  "fold_case ic c = (if ic then lower_char c else c)"

fun quantify :: "char \<Rightarrow> atom \<Rightarrow> item" where
  "quantify c a =
     (if c = CHR ''*'' then Star a else if c = CHR ''+'' then Plus a else Opt a)"

text \<open>
  The parser reads the pattern left to right; \<open>bs\<close> holds the finished alternatives
  and \<open>cur\<close> the items of the current one, both in reverse. A quantifier with
  nothing before it, or after an anchor, is \<^verbatim>\<open>re.error\<close> ("nothing to repeat"), as
  is a backslash at the end of the pattern.
\<close>

fun parse :: "item list list \<Rightarrow> item list \<Rightarrow> string \<Rightarrow> py_error + regex" where
  "parse bs cur [] = Inr (rev (rev cur # bs))"
| "parse bs cur (c # cs) =
     (if c = CHR ''|'' then parse (rev cur # bs) [] cs
      else if c = CHR ''^'' then parse bs (Bol # cur) cs
      else if c = CHR ''$'' then parse bs (Eol # cur) cs
      else if c = CHR ''.'' then parse bs (One AnyChar # cur) cs
      else if c = CHR ''*'' \<or> c = CHR ''+'' \<or> c = CHR ''?'' then
        (case cur of
           [] \<Rightarrow> Inl ReError
         | Bol # _ \<Rightarrow> Inl ReError
         | Eol # _ \<Rightarrow> Inl ReError
         | One a # cur' \<Rightarrow> parse bs (quantify c a # cur') cs
         | _ \<Rightarrow> Inl Unmodelled)
      else if c = backslash then
        (case cs of
           [] \<Rightarrow> Inl ReError
         | d # ds \<Rightarrow>
             if is_alnum d then Inl Unmodelled else parse bs (One (Lit d) # cur) ds)
      else if c = CHR ''('' \<or> c = CHR '')'' \<or> c = CHR ''['' \<or> c = CHR ''{'' then
        Inl Unmodelled
      else parse bs (One (Lit c) # cur) cs)"

definition re_compile :: "string \<Rightarrow> py_error + regex" where
  "re_compile p = parse [] [] p"

fun atom_ok :: "bool \<Rightarrow> atom \<Rightarrow> char \<Rightarrow> bool" where
  "atom_ok ic (Lit p) c = (fold_case ic p = fold_case ic c)"
| "atom_ok ic AnyChar c = (c \<noteq> newline)"

text \<open>
  \<open>match_here ic its bos s\<close>: the items \<open>its\<close> match a prefix of \<open>s\<close>, where \<open>bos\<close>
  says whether \<open>s\<close> starts at the beginning of the subject. \<^verbatim>\<open>$\<close> matches at the
  end of the subject and before a newline that ends it; \<open>Eos\<close> (\<^verbatim>\<open>\Z\<close>) matches at
  the end only and is used for \<^verbatim>\<open>fullmatch\<close>.
\<close>

fun match_here :: "bool \<Rightarrow> item list \<Rightarrow> bool \<Rightarrow> string \<Rightarrow> bool" where
  "match_here ic [] bos s = True"
| "match_here ic (Bol # its) bos s = (bos \<and> match_here ic its bos s)"
| "match_here ic (Eol # its) bos s = ((s = [] \<or> s = [newline]) \<and> match_here ic its bos s)"
| "match_here ic (Eos # its) bos s = (s = [] \<and> match_here ic its bos s)"
| "match_here ic (One a # its) bos [] = False"
| "match_here ic (One a # its) bos (c # cs) = (atom_ok ic a c \<and> match_here ic its False cs)"
| "match_here ic (Opt a # its) bos [] = match_here ic its bos []"
| "match_here ic (Opt a # its) bos (c # cs) =
     (match_here ic its bos (c # cs) \<or> (atom_ok ic a c \<and> match_here ic its False cs))"
| "match_here ic (Star a # its) bos [] = match_here ic its bos []"
| "match_here ic (Star a # its) bos (c # cs) =
     (match_here ic its bos (c # cs) \<or> (atom_ok ic a c \<and> match_here ic (Star a # its) False cs))"
| "match_here ic (Plus a # its) bos [] = False"
| "match_here ic (Plus a # its) bos (c # cs) =
     (atom_ok ic a c \<and> match_here ic (Star a # its) False cs)"

fun search_from :: "bool \<Rightarrow> regex \<Rightarrow> bool \<Rightarrow> string \<Rightarrow> bool" where
  "search_from ic r bos [] = list_ex (\<lambda>b. match_here ic b bos []) r"
| "search_from ic r bos (c # cs) =
     (list_ex (\<lambda>b. match_here ic b bos (c # cs)) r \<or> search_from ic r False cs)"

definition re_search :: "bool \<Rightarrow> regex \<Rightarrow> string \<Rightarrow> bool" where
  "re_search ic r s = search_from ic r True s"

definition re_fullmatch :: "bool \<Rightarrow> regex \<Rightarrow> string \<Rightarrow> bool" where
  "re_fullmatch ic r s = list_ex (\<lambda>b. match_here ic (b @ [Eos]) True s) r"

text \<open>The source's \<^verbatim>\<open>'^' + gene + '$'\<close>.\<close>

definition anchored :: "string \<Rightarrow> string" where
  "anchored gene = ''^'' @ gene @ ''$''"

text \<open>The source's comprehension \<^verbatim>\<open>[l for l in names for m in [regex.search(l)] if m]\<close>.\<close>

definition matching :: "bool \<Rightarrow> regex \<Rightarrow> string list \<Rightarrow> string list" where
  "matching ic r names = filter (re_search ic r) names"

section \<open>\<^verbatim>\<open>check_markers\<close>\<close>

text \<open>
  The DE table is the list of its columns (cluster label, gene names) in column order,
  the marker dictionary the list of its items in insertion order. The result
  dictionaries are association lists written with \<open>AList.update\<close>, which replaces the
  value of a key that is present and appends a new key at the end, as a Python
  \<^verbatim>\<open>dict\<close> does.
\<close>

type_synonym de_table = "(string \<times> string list) list"
type_synonym marker_dict = "(string \<times> string list) list"
type_synonym match_dict = "(string \<times> (string \<times> string list) list) list"

text \<open>The loop over the markers of one key (source lines 80 to 83).\<close>

fun markers_loop :: "string list \<Rightarrow> string list \<Rightarrow> string list \<Rightarrow> py_error + string list" where
  "markers_loop de_genes_group [] genes_found = Inr genes_found"
| "markers_loop de_genes_group (gene # rest) genes_found =
     (case re_compile (anchored gene) of
        Inl e \<Rightarrow> Inl e
      | Inr regex \<Rightarrow>
          (case matching True regex de_genes_group of
             [] \<Rightarrow> markers_loop de_genes_group rest genes_found
           | l # _ \<Rightarrow> markers_loop de_genes_group rest (genes_found @ [l])))"

text \<open>The loop over the keys of the marker dictionary (source lines 76 to 86).\<close>

fun keys_loop ::
  "string list \<Rightarrow> marker_dict \<Rightarrow> (string \<times> string list) list \<Rightarrow>
   py_error + (string \<times> string list) list" where
  "keys_loop de_genes_group [] m = Inr m"
| "keys_loop de_genes_group ((key, pats) # rest) m =
     (case markers_loop de_genes_group pats [] of
        Inl e \<Rightarrow> Inl e
      | Inr genes_found \<Rightarrow>
          keys_loop de_genes_group rest
            (if genes_found = [] then m else AList.update key genes_found m))"

text \<open>
  The loop over the clusters (source lines 67 to 86): \<^verbatim>\<open>matches[group] = dict()\<close> is
  executed for every column, whether or not anything is found for it.
\<close>

fun groups_loop :: "de_table \<Rightarrow> marker_dict \<Rightarrow> match_dict \<Rightarrow> py_error + match_dict" where
  "groups_loop [] marker_genes matches = Inr matches"
| "groups_loop ((grp, de_genes_group) # rest) marker_genes matches =
     (case keys_loop de_genes_group marker_genes [] of
        Inl e \<Rightarrow> Inl e
      | Inr m \<Rightarrow> groups_loop rest marker_genes (AList.update grp m matches))"

definition check_markers :: "de_table \<Rightarrow> marker_dict \<Rightarrow> py_error + match_dict" where
  "check_markers de_genes marker_genes = groups_loop de_genes marker_genes []"

section \<open>\<^verbatim>\<open>plot_markers\<close>: choosing the features to plot\<close>

text \<open>
  Of the annotated data matrix the function reads: the keys of \<^verbatim>\<open>adata.obsm\<close> (with
  each block, its number of columns), the feature names of \<^verbatim>\<open>adata.raw\<close> when there
  is one, the feature names, and the name lists stored in \<^verbatim>\<open>adata.uns\<close>. \<open>var\<close>
  holds the columns of the feature annotation \<^verbatim>\<open>adata.var\<close>, where a missing value
  (NaN) is \<open>None\<close>.
\<close>

record adata =
  obsm :: "(string \<times> nat) list"
  raw_var_names :: "string list option"
  var_names :: "string list"
  uns :: "(string \<times> string list) list"
  var :: "(string \<times> string option list) list"

text \<open>The arguments that decide which features are plotted, and their defaults.\<close>

record plot_args =
  key :: string
  markers :: "marker_dict option"
  basis :: string
  n_max :: int
  use_raw :: bool
  ignore_case :: bool
  protein :: bool
  prot_key :: string
  prot_names_key :: string

definition default_args :: "string \<Rightarrow> plot_args" where
  "default_args k =
     \<lparr>key = k, markers = None, basis = ''umap'', n_max = 10, use_raw = True,
      ignore_case = True, protein = False, prot_key = ''prot'',
      prot_names_key = ''prot_names''\<rparr>"

text \<open>
  Each \<^verbatim>\<open>print\<close> of the function is a value of this type, with the data it prints,
  in the order of the source lines 136, 137, 142, 147, 156, 166, 184, 187, 199, 222,
  225 and 227. \<open>FoundMatches n\<close> is the line \<^verbatim>\<open>Found n matches.\<close>, where \<open>n\<close> is
  \<^verbatim>\<open>len(genes)\<close> before the list is cut.
\<close>

datatype printed =
    CurrentKey string
  | BasisNote string
  | UsingRaw
  | RawMissing
  | KeyNotInMarkers
  | KeyFound
  | CouldNotFind "string list"
  | NoMarkers
  | LookingForProtein
  | FoundMatches nat
  | PlottingGenes "string list"
  | PlottingProteins "string list"

text \<open>
  Source lines 140 to 149. Reading \<^verbatim>\<open>adata.raw.var_names\<close> fails when there is no
  raw block, and the bare \<^verbatim>\<open>except\<close> falls back to \<^verbatim>\<open>adata.var_names\<close>.
\<close>

definition get_var_names :: "adata \<Rightarrow> bool \<Rightarrow> printed list \<times> string list" where
  "get_var_names a raw =
     (if raw then
        (case raw_var_names a of
           Some ns \<Rightarrow> ([UsingRaw], ns)
         | None \<Rightarrow> ([UsingRaw, RawMissing], var_names a))
      else ([], var_names a))"

text \<open>
  Source lines 156 to 162, the key is not a key of the markers dictionary. Both
  branches of the test on \<^verbatim>\<open>ignore_case\<close> compile with \<^verbatim>\<open>re.IGNORECASE\<close>.
\<close>

definition search_var_names :: "bool \<Rightarrow> string \<Rightarrow> string list \<Rightarrow> py_error + string list" where
  "search_var_names ic k names =
     (case re_compile k of
        Inl e \<Rightarrow> Inl e
      | Inr reg_ex \<Rightarrow> Inr (matching (if ic then True else True) reg_ex names))"

text \<open>Source lines 172 to 182, the key is a key of the markers dictionary.\<close>

fun category_loop ::
  "bool \<Rightarrow> string list \<Rightarrow> string list \<Rightarrow> string list \<Rightarrow> string list \<Rightarrow>
   py_error + (string list \<times> string list)" where
  "category_loop ic names [] genes not_found = Inr (genes, not_found)"
| "category_loop ic names (gene # rest) genes not_found =
     (case re_compile (anchored gene) of
        Inl e \<Rightarrow> Inl e
      | Inr reg_ex \<Rightarrow>
          (case matching ic reg_ex names of
             [] \<Rightarrow> category_loop ic names rest genes (not_found @ [gene])
           | l # _ \<Rightarrow> category_loop ic names rest (genes @ [l]) not_found))"

text \<open>
  Source lines 188 to 196, no markers dictionary: the loop runs over the elements of
  the key, for a string its characters, and \<^verbatim>\<open>genes.append(*genes_)\<close> is a call
  with as many arguments as there are matches, a \<^verbatim>\<open>TypeError\<close> unless there is
  exactly one.
\<close>

fun chars_loop :: "bool \<Rightarrow> string list \<Rightarrow> string \<Rightarrow> string list \<Rightarrow> py_error + string list" where
  "chars_loop ic names [] genes = Inr genes"
| "chars_loop ic names (gene # rest) genes =
     (case re_compile [gene] of
        Inl e \<Rightarrow> Inl e
      | Inr reg_ex \<Rightarrow>
          (case matching ic reg_ex names of
             [l] \<Rightarrow> chars_loop ic names rest (genes @ [l])
           | _ \<Rightarrow> Inl TypeError))"

text \<open>
  Source lines 199 to 213, protein mode. \<^verbatim>\<open>pd.DataFrame(data, columns=names)\<close>
  raises a \<^verbatim>\<open>ValueError\<close> when the number of names is not the number of columns.
\<close>

definition search_proteins :: "adata \<Rightarrow> plot_args \<Rightarrow> py_error + string list" where
  "search_proteins a args =
     (case (map_of (uns a) (prot_names_key args), map_of (obsm a) (prot_key args)) of
        (Some protein_names, Some ncols) \<Rightarrow>
          if length protein_names = ncols then
            (case re_compile (key args) of
               Inl e \<Rightarrow> Inl e
             | Inr reg_ex \<Rightarrow> Inr (matching (ignore_case args) reg_ex protein_names))
          else Inl (ValueError LengthMismatch)
      | _ \<Rightarrow> Inl (ValueError (ProteinFieldsMissing (prot_names_key args) (prot_key args))))"

text \<open>Source lines 152 to 213: the three branches, in the order of the source.\<close>

definition resolve_genes ::
  "adata \<Rightarrow> plot_args \<Rightarrow> string list \<Rightarrow> printed list \<times> (py_error + string list)" where
  "resolve_genes a args names =
     (if markers args \<noteq> None \<and> \<not> protein args then
        (case map_of (the (markers args)) (key args) of
           None \<Rightarrow> ([KeyNotInMarkers], search_var_names (ignore_case args) (key args) names)
         | Some genes_pre \<Rightarrow>
             (case category_loop (ignore_case args) names genes_pre [] [] of
                Inl e \<Rightarrow> ([KeyFound], Inl e)
              | Inr (genes, not_found) \<Rightarrow>
                  (if not_found = [] then [KeyFound] else [KeyFound, CouldNotFind not_found],
                   Inr genes)))
      else if \<not> protein args then
        ([NoMarkers], chars_loop (ignore_case args) names (key args) [])
      else ([LookingForProtein], search_proteins a args))"

text \<open>Python's \<^verbatim>\<open>genes[:n]\<close>: a negative \<open>n\<close> counts from the end.\<close>

definition slice_to :: "'a list \<Rightarrow> int \<Rightarrow> 'a list" where
  "slice_to xs n = (if 0 \<le> n then take (nat n) xs else take (nat (int (length xs) + n)) xs)"

text \<open>
  Source lines 128 to 227. The result is what was printed and either the exception
  raised or the list \<^verbatim>\<open>genes\<close> that the drawing loop (lines 229 to 287, calls into
  matplotlib and scanpy, not modelled) goes through.
\<close>

definition plot_markers :: "adata \<Rightarrow> plot_args \<Rightarrow> printed list \<times> (py_error + string list)" where
  "plot_markers a args =
     (if map_of (obsm a) (''X_'' @ basis args) = None then
        ([], Inl (ValueError (BasisNotComputed (basis args))))
      else
        (case get_var_names a (use_raw args) of (n1, names) \<Rightarrow>
         case resolve_genes a args names of (n2, r) \<Rightarrow>
         let notes = [CurrentKey (key args), BasisNote (basis args)] @ n1 @ n2 in
         case r of
           Inl e \<Rightarrow> (notes, Inl e)
         | Inr genes \<Rightarrow>
             if length genes = 0 then (notes, Inl (ValueError NothingToPlot))
             else
               let many = (int (length genes) > n_max args);
                   found = (if many then [FoundMatches (length genes)] else []);
                   genes' = (if many then slice_to genes (n_max args) else genes)
               in (notes @ found @
                     [if protein args then PlottingProteins genes' else PlottingGenes genes'],
                   Inr genes')))"

section \<open>\<^verbatim>\<open>map_to_mgi\<close>\<close>

text \<open>
  The conversion table queried from the database is a parameter: its rows (identifier,
  symbol), a missing symbol being \<open>None\<close>. The three printed counts do not enter the
  annotation written and are left out. \<^verbatim>\<open>fillna(..., inplace=True)\<close> on the column
  fills the column of the joined table, as it does in pandas without copy-on-write.
\<close>

type_synonym conv_table = "(string \<times> string option) list"

text \<open>\<^verbatim>\<open>drop_duplicates\<close> on the first column keeps the first row of each identifier.\<close>

fun drop_seen :: "string list \<Rightarrow> conv_table \<Rightarrow> conv_table" where
  "drop_seen seen [] = []"
| "drop_seen seen (row # rows) =
     (if fst row \<in> set seen then drop_seen seen rows
      else row # drop_seen (fst row # seen) rows)"

definition drop_duplicates :: "conv_table \<Rightarrow> conv_table" where
  "drop_duplicates conv = drop_seen [] conv"

text \<open>
  The left join on the identifier: a feature gives one row for each row of the table
  with its identifier, and one row with a missing symbol when there is none.
\<close>

definition join_rows :: "conv_table \<Rightarrow> string \<Rightarrow> (string \<times> string option) list" where
  "join_rows conv v =
     (case filter (\<lambda>row. fst row = v) conv of
        [] \<Rightarrow> [(v, None)]
      | hits \<Rightarrow> map (\<lambda>row. (v, snd row)) hits)"

definition left_join :: "string list \<Rightarrow> conv_table \<Rightarrow> (string \<times> string option) list" where
  "left_join names conv = concat (map (join_rows conv) names)"

definition fillna :: "string option list \<Rightarrow> string option list \<Rightarrow> string option list" where
  "fillna col other =
     map (\<lambda>(x, y). case x of None \<Rightarrow> y | Some s \<Rightarrow> Some s) (zip col other)"

text \<open>
  Source lines 306 to 341. Assigning a list as a column of \<^verbatim>\<open>adata.var\<close> raises a
  \<^verbatim>\<open>ValueError\<close> when its length is not the number of features.
\<close>

definition map_to_mgi :: "adata \<Rightarrow> conv_table \<Rightarrow> py_error + adata" where
  "map_to_mgi a conv_table =
     (let conv = drop_duplicates conv_table;
          mapping = left_join (var_names a) conv;
          gene_name = fillna (map snd mapping) (map (\<lambda>row. Some (fst row)) mapping)
      in if length gene_name = length (var_names a)
         then Inr (a\<lparr>var := AList.update ''mgi_symbols'' gene_name (var a)\<rparr>)
         else Inl (ValueError LengthMismatch))"

section \<open>Properties of \<^verbatim>\<open>check_markers\<close>: definitions\<close>

text \<open>
  What the specification says of \<^verbatim>\<open>check_markers\<close>, written down independently of
  the loops: a marker compiles, it hits a name, its first hit in a list of names, and
  the table of first hits by cluster and category with the empty categories left out.
\<close>

definition compiles :: "string \<Rightarrow> bool" where
  "compiles gene = (case re_compile (anchored gene) of Inl e \<Rightarrow> False | Inr regex \<Rightarrow> True)"

definition first_match :: "string list \<Rightarrow> string \<Rightarrow> string option" where
  "first_match names gene =
     (case re_compile (anchored gene) of
        Inl e \<Rightarrow> None
      | Inr regex \<Rightarrow> List.find (re_search True regex) names)"

definition recorded :: "string list \<Rightarrow> string list \<Rightarrow> string list" where
  "recorded names pats = List.map_filter (first_match names) pats"

definition category_matches :: "string list \<Rightarrow> marker_dict \<Rightarrow> (string \<times> string list) list" where
  "category_matches names marker_genes =
     filter (\<lambda>entry. snd entry \<noteq> []) (map (\<lambda>(k, pats). (k, recorded names pats)) marker_genes)"

definition first_matches :: "de_table \<Rightarrow> marker_dict \<Rightarrow> match_dict" where
  "first_matches de_genes marker_genes =
     map (\<lambda>(grp, names). (grp, category_matches names marker_genes)) de_genes"

definition all_compile :: "marker_dict \<Rightarrow> bool" where
  "all_compile marker_genes = list_all (\<lambda>entry. list_all compiles (snd entry)) marker_genes"

definition marker_hit :: "string \<Rightarrow> string \<Rightarrow> bool" where
  "marker_hit gene l =
     (case re_compile (anchored gene) of Inl e \<Rightarrow> False | Inr regex \<Rightarrow> re_search True regex l)"

section \<open>Plain names and example data: definitions\<close>

text \<open>
  A plain name has no character that the pattern syntax treats specially. A pattern
  matches a name as a whole when \<^verbatim>\<open>re.fullmatch\<close> succeeds. Two names are the same
  when they are equal, or equal up to the case of letters when case is ignored. The
  patterns whose anchoring is settled are those without \<^verbatim>\<open>|\<close> that compile, the
  names those that do not end in a newline.
\<close>

definition plain_name :: "string \<Rightarrow> bool" where
  "plain_name p = list_all (\<lambda>c. c \<notin> set ''|^$.*+?()[{'' \<and> c \<noteq> backslash) p"

definition fullmatches :: "bool \<Rightarrow> string \<Rightarrow> string \<Rightarrow> bool" where
  "fullmatches ic p s =
     (case re_compile p of Inl e \<Rightarrow> False | Inr regex \<Rightarrow> re_fullmatch ic regex s)"

definition same_name :: "bool \<Rightarrow> string \<Rightarrow> string \<Rightarrow> bool" where
  "same_name ic p s = (map (fold_case ic) s = map (fold_case ic) p)"

definition ends_with_newline :: "string \<Rightarrow> bool" where
  "ends_with_newline s = (case rev s of [] \<Rightarrow> False | c # cs \<Rightarrow> c = newline)"

definition no_bar :: "string \<Rightarrow> bool" where
  "no_bar p = (CHR ''|'' \<notin> set p \<and> (case re_compile p of Inl e \<Rightarrow> False | Inr regex \<Rightarrow> True))"

definition first_whole :: "bool \<Rightarrow> string list \<Rightarrow> string \<Rightarrow> string list" where
  "first_whole ic names gene = take 1 (filter (fullmatches ic gene) names)"

definition no_final_newline :: "string list \<Rightarrow> bool" where
  "no_final_newline names = list_all (\<lambda>l. \<not> ends_with_newline l) names"

definition is_ascii :: "string \<Rightarrow> bool" where
  "is_ascii s = list_all (\<lambda>c. (of_char c :: nat) < 128) s"

definition cd3e_data :: adata where
  "cd3e_data = \<lparr>obsm = [(''X_umap'', 2)], raw_var_names = None, var_names = [''Cd3e''],
     uns = [], var = []\<rparr>"

definition marker_data :: adata where
  "marker_data = \<lparr>obsm = [(''X_umap'', 2)], raw_var_names = None,
     var_names = [''Cd3e'', ''Cd3d'', ''Cd4'', ''Foxp3''], uns = [], var = []\<rparr>"

text \<open>What the three branches of \<^verbatim>\<open>plot_markers\<close> resolve the key to, before truncation.\<close>

definition resolved :: "adata \<Rightarrow> plot_args \<Rightarrow> py_error + string list" where
  "resolved a args = snd (resolve_genes a args (snd (get_var_names a (use_raw args))))"

section \<open>\<^verbatim>\<open>map_to_mgi\<close>: definitions\<close>

text \<open>
  The symbol a feature should get: the symbol of the first row of the conversion table
  with its identifier, and the identifier itself when there is no such row or the row
  has no symbol.
\<close>

definition symbol_of :: "conv_table \<Rightarrow> string \<Rightarrow> string" where
  "symbol_of conv v = (case map_of conv v of Some (Some s) \<Rightarrow> s | _ \<Rightarrow> v)"

definition unmapped :: "conv_table \<Rightarrow> string \<Rightarrow> bool" where
  "unmapped conv v = (case map_of conv v of Some (Some s) \<Rightarrow> False | _ \<Rightarrow> True)"

definition mgi_example :: adata where
  "mgi_example = \<lparr>obsm = [], raw_var_names = None, var_names = [''ENSMUSG1'', ''ENSMUSG2''],
     uns = [], var = []\<rparr>"

section \<open>\<^verbatim>\<open>check_markers\<close> computes the table of first matches\<close>

lemma find_filter: "List.find P xs = (case filter P xs of [] \<Rightarrow> None | x # _ \<Rightarrow> Some x)"
  by (induction xs) auto

lemma markers_loop_recorded:
  "list_all compiles pats \<Longrightarrow>
   markers_loop names pats found = Inr (found @ recorded names pats)"
proof (induction pats arbitrary: found)
  case Nil
  then show ?case by (simp add: recorded_def)
next
  case (Cons gene rest)
  from Cons.prems obtain regex where c: "re_compile (anchored gene) = Inr regex"
    by (auto simp: compiles_def split: sum.splits)
  have rest: "list_all compiles rest" using Cons.prems by simp
  show ?case
  proof (cases "matching True regex names")
    case Nil
    then have "first_match names gene = None"
      by (simp add: first_match_def c find_filter matching_def)
    with Nil c Cons.IH[OF rest] show ?thesis by (simp add: recorded_def)
  next
    case (Cons l ls)
    then have "first_match names gene = Some l"
      by (simp add: first_match_def c find_filter matching_def)
    with Cons c Cons.IH[OF rest] show ?thesis by (simp add: recorded_def)
  qed
qed

lemma update_fresh: "k \<notin> fst ` set al \<Longrightarrow> AList.update k v al = al @ [(k, v)]"
  by (induction al) auto

lemma keys_loop_category_matches:
  "all_compile mk \<Longrightarrow> distinct (map fst mk) \<Longrightarrow> fst ` set mk \<inter> fst ` set m = {} \<Longrightarrow>
   keys_loop names mk m = Inr (m @ category_matches names mk)"
proof (induction mk arbitrary: m)
  case Nil
  then show ?case by (simp add: category_matches_def)
next
  case (Cons entry rest)
  obtain k pats where e: "entry = (k, pats)" by (cases entry)
  have ml: "markers_loop names pats [] = Inr (recorded names pats)"
    using Cons.prems(1) markers_loop_recorded[of pats names "[]"] by (simp add: all_compile_def e)
  have ac: "all_compile rest" using Cons.prems(1) by (simp add: all_compile_def)
  have d: "distinct (map fst rest)" and knr: "k \<notin> fst ` set rest" and knm: "k \<notin> fst ` set m"
    using Cons.prems(2,3) by (auto simp: e)
  show ?case
  proof (cases "recorded names pats = []")
    case True
    have "fst ` set rest \<inter> fst ` set m = {}" using Cons.prems(3) by auto
    from Cons.IH[OF ac d this] True ml show ?thesis
      by (simp add: e category_matches_def)
  next
    case False
    have "fst ` set rest \<inter> fst ` set (m @ [(k, recorded names pats)]) = {}"
      using Cons.prems(3) knr by auto
    from Cons.IH[OF ac d this] False ml knm show ?thesis
      by (simp add: e category_matches_def update_fresh)
  qed
qed

lemma groups_loop_first_matches:
  "all_compile mk \<Longrightarrow> distinct (map fst mk) \<Longrightarrow> distinct (map fst de) \<Longrightarrow>
   fst ` set de \<inter> fst ` set matches = {} \<Longrightarrow>
   groups_loop de mk matches = Inr (matches @ first_matches de mk)"
proof (induction de arbitrary: matches)
  case Nil
  then show ?case by (simp add: first_matches_def)
next
  case (Cons col rest)
  obtain grp names where c: "col = (grp, names)" by (cases col)
  have kl: "keys_loop names mk [] = Inr (category_matches names mk)"
    using keys_loop_category_matches[OF Cons.prems(1,2), of "[]" names] by simp
  have d: "distinct (map fst rest)" and gnr: "grp \<notin> fst ` set rest" and gnm: "grp \<notin> fst ` set matches"
    using Cons.prems(3,4) by (auto simp: c)
  have "fst ` set rest \<inter> fst ` set (matches @ [(grp, category_matches names mk)]) = {}"
    using Cons.prems(4) gnr by auto
  from Cons.IH[OF Cons.prems(1,2) d this] kl gnm show ?case
    by (simp add: c first_matches_def update_fresh)
qed

lemma check_markers_eq:
  "all_compile mk \<Longrightarrow> distinct (map fst mk) \<Longrightarrow> distinct (map fst de) \<Longrightarrow>
   check_markers de mk = Inr (first_matches de mk)"
  using groups_loop_first_matches[of mk de "[]"] by (simp add: check_markers_def)

section \<open>Which entries the result of \<^verbatim>\<open>check_markers\<close> has\<close>

lemma filter_head: "filter P xs = l # ls \<Longrightarrow> l \<in> set xs \<and> P l"
proof -
  assume a: "filter P xs = l # ls"
  have "l \<in> set (filter P xs)" by (simp add: a)
  then show ?thesis by simp
qed

lemma markers_loop_sound:
  "markers_loop names pats found = Inr found' \<Longrightarrow>
   set found' \<subseteq> set found \<union> {l \<in> set names. \<exists>gene\<in>set pats. marker_hit gene l}"
proof (induction pats arbitrary: found)
  case Nil
  then show ?case by auto
next
  case (Cons gene rest)
  from Cons.prems obtain regex where c: "re_compile (anchored gene) = Inr regex"
    by (auto split: sum.splits)
  show ?case
  proof (cases "matching True regex names")
    case Nil
    with Cons.prems c have "markers_loop names rest found = Inr found'" by simp
    from Cons.IH[OF this] show ?thesis by auto
  next
    case (Cons l ls)
    then have hit: "l \<in> set names \<and> marker_hit gene l"
      using filter_head[of "re_search True regex" names l ls]
      by (simp add: matching_def marker_hit_def c)
    from Cons Cons.prems c have "markers_loop names rest (found @ [l]) = Inr found'" by simp
    from Cons.IH[OF this] hit show ?thesis by auto
  qed
qed

lemma set_update_subset: "set (AList.update k v al) \<subseteq> insert (k, v) (set al)"
  by (induction al) auto

lemma keys_loop_sound:
  "keys_loop names mk m = Inr m' \<Longrightarrow> (k, found) \<in> set m' \<Longrightarrow>
   (k, found) \<in> set m \<or>
   (found \<noteq> [] \<and> (\<exists>pats. (k, pats) \<in> set mk \<and>
      set found \<subseteq> {l \<in> set names. \<exists>gene\<in>set pats. marker_hit gene l}))"
proof (induction mk arbitrary: m)
  case Nil
  then show ?case by simp
next
  case (Cons entry rest)
  obtain k0 pats0 where e: "entry = (k0, pats0)" by (cases entry)
  from Cons.prems(1) obtain genes_found where
    ml: "markers_loop names pats0 [] = Inr genes_found"
    by (auto simp: e split: sum.splits)
  let ?m1 = "if genes_found = [] then m else AList.update k0 genes_found m"
  from Cons.prems(1) ml have kl: "keys_loop names rest ?m1 = Inr m'" by (simp add: e)
  from Cons.IH[OF kl Cons.prems(2)] show ?case
  proof
    assume in1: "(k, found) \<in> set ?m1"
    show ?thesis
    proof (cases "(k, found) \<in> set m")
      case True
      then show ?thesis by simp
    next
      case False
      with in1 set_update_subset[of k0 genes_found m]
      have new: "genes_found \<noteq> [] \<and> k = k0 \<and> found = genes_found"
        by (auto split: if_splits)
      with markers_loop_sound[OF ml] have
        "set found \<subseteq> {l \<in> set names. \<exists>gene\<in>set pats0. marker_hit gene l}" by simp
      with new show ?thesis by (auto simp: e)
    qed
  next
    assume "found \<noteq> [] \<and> (\<exists>pats. (k, pats) \<in> set rest \<and>
      set found \<subseteq> {l \<in> set names. \<exists>gene\<in>set pats. marker_hit gene l})"
    then show ?thesis by auto
  qed
qed

lemma groups_loop_sound:
  "groups_loop de mk matches = Inr res \<Longrightarrow> (grp, m) \<in> set res \<Longrightarrow>
   (grp, m) \<in> set matches \<or> (\<exists>names. (grp, names) \<in> set de \<and> keys_loop names mk [] = Inr m)"
proof (induction de arbitrary: matches)
  case Nil
  then show ?case by simp
next
  case (Cons col rest)
  obtain g0 names0 where c: "col = (g0, names0)" by (cases col)
  from Cons.prems(1) obtain m0 where kl: "keys_loop names0 mk [] = Inr m0"
    by (auto simp: c split: sum.splits)
  from Cons.prems(1) kl have gl: "groups_loop rest mk (AList.update g0 m0 matches) = Inr res"
    by (simp add: c)
  from Cons.IH[OF gl Cons.prems(2)] show ?case
  proof
    assume "(grp, m) \<in> set (AList.update g0 m0 matches)"
    with set_update_subset[of g0 m0 matches] kl show ?thesis by (auto simp: c)
  next
    assume "\<exists>names. (grp, names) \<in> set rest \<and> keys_loop names mk [] = Inr m"
    then show ?thesis by auto
  qed
qed

lemma groups_loop_dom:
  "groups_loop de mk matches = Inr res \<Longrightarrow> fst ` set res = fst ` set de \<union> fst ` set matches"
proof (induction de arbitrary: matches)
  case Nil
  then show ?case by simp
next
  case (Cons col rest)
  obtain g0 names0 where c: "col = (g0, names0)" by (cases col)
  from Cons.prems obtain m0 where kl: "keys_loop names0 mk [] = Inr m0"
    by (auto simp: c split: sum.splits)
  from Cons.prems kl have gl: "groups_loop rest mk (AList.update g0 m0 matches) = Inr res"
    by (simp add: c)
  from Cons.IH[OF gl] show ?case by (auto simp: c dom_update)
qed

text \<open>
  C1, as amended. When \<^verbatim>\<open>check_markers\<close> returns, the result has an entry for
  every cluster of the DE table and for no other label, and every category entry of a
  cluster holds a non-empty list, all of whose genes are DE genes of that cluster hit
  by a pattern of that category: a category that matched nothing in a cluster is
  left out of that cluster's mapping.
\<close>

theorem check_markers_entries:
  assumes "check_markers de_genes marker_genes = Inr res"
  shows "fst ` set res = fst ` set de_genes \<and>
    (\<forall>(grp, m) \<in> set res. \<forall>(k, found) \<in> set m.
       found \<noteq> [] \<and>
       (\<exists>names pats. (grp, names) \<in> set de_genes \<and> (k, pats) \<in> set marker_genes \<and>
          set found \<subseteq> {l \<in> set names. \<exists>gene\<in>set pats. marker_hit gene l}))"
proof -
  have gl: "groups_loop de_genes marker_genes [] = Inr res"
    using assms by (simp add: check_markers_def)
  have dom: "fst ` set res = fst ` set de_genes"
    using groups_loop_dom[OF gl] by simp
  have ent: "found \<noteq> [] \<and>
       (\<exists>names pats. (grp, names) \<in> set de_genes \<and> (k, pats) \<in> set marker_genes \<and>
          set found \<subseteq> {l \<in> set names. \<exists>gene\<in>set pats. marker_hit gene l})"
    if a: "(grp, m) \<in> set res" and b: "(k, found) \<in> set m" for grp m k found
  proof -
    from groups_loop_sound[OF gl a] obtain names where
      n: "(grp, names) \<in> set de_genes" and kl: "keys_loop names marker_genes [] = Inr m"
      by auto
    from keys_loop_sound[OF kl b] n show ?thesis by auto
  qed
  from dom ent show ?thesis by blast
qed

text \<open>An instance: cluster 1 matches nothing and is present with an empty mapping.\<close>

theorem check_markers_entries_witness:
  "check_markers [(''0'', [''Cd3e'', ''Foxp3'']), (''1'', [''Gata1''])]
       [(''Tcell'', [''Cd3e'', ''Cd3d'']), (''Bcell'', [''Cd19''])] =
     Inr [(''0'', [(''Tcell'', [''Cd3e''])]), (''1'', [])] \<and>
   fst ` set [(''0'', [(''Tcell'', [''Cd3e''])]), (''1'', [])] =
     fst ` set [(''0'', [''Cd3e'', ''Foxp3'']), (''1'', [''Gata1''])]"
proof -
  have h: "check_markers [(''0'', [''Cd3e'', ''Foxp3'']), (''1'', [''Gata1''])]
       [(''Tcell'', [''Cd3e'', ''Cd3d'']), (''Bcell'', [''Cd19''])] =
     Inr [(''0'', [(''Tcell'', [''Cd3e''])]), (''1'', [])]"
    by code_simp
  from check_markers_entries[OF h] h show ?thesis by blast
qed

text \<open>
  C1 as stated fails: a cluster without any match is not omitted, it is present with
  an empty mapping (source line 70 runs for every column).
\<close>

theorem check_markers_empty_cluster_counterexample:
  "check_markers [(''0'', [''Foxp3''])] [(''Tcell'', [''Cd3e''])] = Inr [(''0'', [])]"
  by code_simp

section \<open>The first match of every pattern is recorded\<close>

lemma first_match_first:
  assumes "first_match names gene = Some l"
  shows "\<exists>i<length names. names ! i = l \<and> marker_hit gene l \<and>
           (\<forall>j<i. \<not> marker_hit gene (names ! j))"
proof -
  from assms obtain regex where c: "re_compile (anchored gene) = Inr regex"
    and f: "List.find (re_search True regex) names = Some l"
    by (auto simp: first_match_def split: sum.splits)
  from f show ?thesis by (auto simp: find_Some_iff marker_hit_def c)
qed

text \<open>
  C3. For a DE table with distinct column labels and a marker dictionary whose patterns
  all compile, \<^verbatim>\<open>check_markers\<close> returns without error the table of first matches:
  for each cluster and category, in the order of the patterns, the first DE gene of the
  cluster that the pattern hits, a pattern that hits none being skipped. A first
  match is a hit with no hit before it in the list. For the marker set
  \<^verbatim>\<open>{"Tcell": ["Cd3e", "Cd3d"]}\<close> and the DE genes \<^verbatim>\<open>["Cd3e", "Foxp3"]\<close> of
  cluster 0 the result is \<^verbatim>\<open>{"0": {"Tcell": ["Cd3e"]}}\<close>.
\<close>

theorem check_markers_records_first_match:
  "(all_compile marker_genes \<and> distinct (map fst marker_genes) \<and> distinct (map fst de_genes) \<longrightarrow>
      check_markers de_genes marker_genes = Inr (first_matches de_genes marker_genes)) \<and>
   (first_match names gene = Some l \<longrightarrow>
      (\<exists>i<length names. names ! i = l \<and> marker_hit gene l \<and>
         (\<forall>j<i. \<not> marker_hit gene (names ! j)))) \<and>
   check_markers [(''0'', [''Cd3e'', ''Foxp3''])] [(''Tcell'', [''Cd3e'', ''Cd3d''])] =
     Inr [(''0'', [(''Tcell'', [''Cd3e''])])]"
proof -
  have "check_markers [(''0'', [''Cd3e'', ''Foxp3''])] [(''Tcell'', [''Cd3e'', ''Cd3d''])] =
     Inr [(''0'', [(''Tcell'', [''Cd3e''])])]"
    by code_simp
  then show ?thesis using check_markers_eq first_match_first by blast
qed

text \<open>An instance with two clusters, two categories and a pattern in another case.\<close>

theorem check_markers_records_first_match_witness:
  "all_compile [(''Tcell'', [''Cd3d'', ''cd4'']), (''Treg'', [''Foxp3''])] \<and>
   distinct (map fst [(''Tcell'', [''Cd3d'', ''cd4'']), (''Treg'', [''Foxp3''])]) \<and>
   distinct (map fst [(''0'', [''Cd3e'', ''Foxp3'']), (''1'', [''CD4'', ''Cd4''])]) \<and>
   first_match [''CD4'', ''Cd4''] ''cd4'' = Some ''CD4'' \<and>
   check_markers [(''0'', [''Cd3e'', ''Foxp3'']), (''1'', [''CD4'', ''Cd4''])]
       [(''Tcell'', [''Cd3d'', ''cd4'']), (''Treg'', [''Foxp3''])] =
     Inr [(''0'', [(''Treg'', [''Foxp3''])]), (''1'', [(''Tcell'', [''CD4''])])] \<and>
   (\<exists>i<length [''CD4'', ''Cd4'']. [''CD4'', ''Cd4''] ! i = ''CD4'' \<and> marker_hit ''cd4'' ''CD4'' \<and>
      (\<forall>j<i. \<not> marker_hit ''cd4'' ([''CD4'', ''Cd4''] ! j)))"
proof -
  have a: "all_compile [(''Tcell'', [''Cd3d'', ''cd4'']), (''Treg'', [''Foxp3''])]"
    by code_simp
  have d1: "distinct (map fst [(''Tcell'', [''Cd3d'', ''cd4'']), (''Treg'', [''Foxp3''])])"
    by simp
  have d2: "distinct (map fst [(''0'', [''Cd3e'', ''Foxp3'']), (''1'', [''CD4'', ''Cd4''])])"
    by simp
  have f: "first_match [''CD4'', ''Cd4''] ''cd4'' = Some ''CD4''"
    by code_simp
  have v: "first_matches [(''0'', [''Cd3e'', ''Foxp3'']), (''1'', [''CD4'', ''Cd4''])]
       [(''Tcell'', [''Cd3d'', ''cd4'']), (''Treg'', [''Foxp3''])] =
     [(''0'', [(''Treg'', [''Foxp3''])]), (''1'', [(''Tcell'', [''CD4''])])]"
    by code_simp
  note t = check_markers_records_first_match
    [of "[(''Tcell'', [''Cd3d'', ''cd4'']), (''Treg'', [''Foxp3''])]"
        "[(''0'', [''Cd3e'', ''Foxp3'']), (''1'', [''CD4'', ''Cd4''])]"
        "[''CD4'', ''Cd4'']" "''cd4''" "''CD4''"]
  from t a d1 d2 have "check_markers [(''0'', [''Cd3e'', ''Foxp3'']), (''1'', [''CD4'', ''Cd4''])]
       [(''Tcell'', [''Cd3d'', ''cd4'']), (''Treg'', [''Foxp3''])] =
     Inr (first_matches [(''0'', [''Cd3e'', ''Foxp3'']), (''1'', [''CD4'', ''Cd4''])]
       [(''Tcell'', [''Cd3d'', ''cd4'']), (''Treg'', [''Foxp3''])])"
    by blast
  with v have c: "check_markers [(''0'', [''Cd3e'', ''Foxp3'']), (''1'', [''CD4'', ''Cd4''])]
       [(''Tcell'', [''Cd3d'', ''cd4'']), (''Treg'', [''Foxp3''])] =
     Inr [(''0'', [(''Treg'', [''Foxp3''])]), (''1'', [(''Tcell'', [''CD4''])])]"
    by simp
  from t f have "\<exists>i<length [''CD4'', ''Cd4'']. [''CD4'', ''Cd4''] ! i = ''CD4'' \<and> marker_hit ''cd4'' ''CD4'' \<and>
      (\<forall>j<i. \<not> marker_hit ''cd4'' ([''CD4'', ''Cd4''] ! j))"
    by blast
  with a d1 d2 f c show ?thesis by blast
qed

section \<open>The list of a category can repeat a gene\<close>

lemma count_list_map_filter:
  "count_list (List.map_filter f xs) y = length (filter (\<lambda>x. f x = Some y) xs)"
  by (induction xs) (auto split: option.splits)

lemma distinct_count_le_1: "distinct xs \<Longrightarrow> count_list xs x \<le> 1"
  by (induction xs) auto

lemma two_hits:
  assumes "i < j" "j < length xs" "P (xs ! i)" "P (xs ! j)"
  shows "2 \<le> length (filter P xs)"
proof -
  have xs: "xs = take j xs @ xs ! j # drop (Suc j) xs"
    using assms(2) by (rule id_take_nth_drop)
  have "xs ! i \<in> set (take j xs)"
    using assms(1,2) by (auto simp: in_set_conv_nth intro!: exI[of _ i])
  with assms(3) have "filter P (take j xs) \<noteq> []"
    by (auto simp: filter_empty_conv)
  then have "1 \<le> length (filter P (take j xs))"
    by (cases "filter P (take j xs)") auto
  moreover have "length (filter P xs) =
     length (filter P (take j xs)) + length (filter P (xs ! j # drop (Suc j) xs))"
    by (subst xs) simp
  ultimately show ?thesis using assms(4) by simp
qed

lemma map_of_first_matches:
  assumes "distinct (map fst de)" "(grp, names) \<in> set de"
  shows "map_of (first_matches de mk) grp = Some (category_matches names mk)"
proof -
  have "map fst (first_matches de mk) = map fst de"
    by (auto simp: first_matches_def)
  then have "distinct (map fst (first_matches de mk))" using assms(1) by simp
  moreover have "(grp, category_matches names mk) \<in> set (first_matches de mk)"
    using assms(2) by (force simp: first_matches_def)
  ultimately show ?thesis by (rule map_of_is_SomeI)
qed

lemma map_of_category_matches:
  assumes "distinct (map fst mk)" "(k, pats) \<in> set mk" "recorded names pats \<noteq> []"
  shows "map_of (category_matches names mk) k = Some (recorded names pats)"
proof -
  have eq: "map fst (map (\<lambda>(k, pats). (k, recorded names pats)) mk) = map fst mk"
    by auto
  have "distinct (map fst (map (\<lambda>(k, pats). (k, recorded names pats)) mk))"
    unfolding eq by (rule assms(1))
  then have "distinct (map fst (category_matches names mk))"
    unfolding category_matches_def by (rule distinct_map_filter)
  moreover have "(k, recorded names pats) \<in> set (category_matches names mk)"
    using assms(2,3) by (force simp: category_matches_def)
  ultimately show ?thesis by (rule map_of_is_SomeI)
qed

text \<open>
  C10. The list recorded for a category holds a DE gene once for every pattern of the
  category whose first match it is: when the patterns at two positions of one category
  have the same first match, that gene occurs at least twice and the list is not
  duplicate-free.
\<close>

theorem check_markers_keeps_duplicates:
  assumes "all_compile marker_genes" "distinct (map fst marker_genes)"
    and "distinct (map fst de_genes)"
    and "(grp, names) \<in> set de_genes" "(k, pats) \<in> set marker_genes"
    and "i < j" "j < length pats"
    and "first_match names (pats ! i) = Some g" "first_match names (pats ! j) = Some g"
  shows "\<exists>res m found. check_markers de_genes marker_genes = Inr res \<and>
           map_of res grp = Some m \<and> map_of m k = Some found \<and>
           count_list found g = length (filter (\<lambda>gene. first_match names gene = Some g) pats) \<and>
           2 \<le> count_list found g \<and> \<not> distinct found"
proof -
  let ?found = "recorded names pats"
  have cnt: "count_list ?found g = length (filter (\<lambda>gene. first_match names gene = Some g) pats)"
    by (simp add: recorded_def count_list_map_filter)
  have two: "2 \<le> count_list ?found g"
    unfolding cnt using assms(6-9) by (rule two_hits)
  then have ne: "?found \<noteq> []" by auto
  have nd: "\<not> distinct ?found"
    using two distinct_count_le_1[of ?found g] by auto
  have "check_markers de_genes marker_genes = Inr (first_matches de_genes marker_genes)"
    using assms(1-3) by (rule check_markers_eq)
  moreover have "map_of (first_matches de_genes marker_genes) grp =
      Some (category_matches names marker_genes)"
    using assms(3,4) by (rule map_of_first_matches)
  moreover have "map_of (category_matches names marker_genes) k = Some ?found"
    using assms(2,5) ne by (rule map_of_category_matches)
  ultimately show ?thesis using cnt two nd by blast
qed

text \<open>An instance: the patterns \<^verbatim>\<open>Cd3e\<close> and \<^verbatim>\<open>cd3e\<close> both hit the gene \<^verbatim>\<open>Cd3e\<close> first.\<close>

theorem check_markers_keeps_duplicates_witness:
  "all_compile [(''Tcell'', [''Cd3e'', ''cd3e''])] \<and>
   distinct (map fst [(''Tcell'', [''Cd3e'', ''cd3e''])]) \<and>
   distinct (map fst [(''0'', [''Cd3e'', ''Foxp3''])]) \<and>
   first_match [''Cd3e'', ''Foxp3''] ([''Cd3e'', ''cd3e''] ! 0) = Some ''Cd3e'' \<and>
   first_match [''Cd3e'', ''Foxp3''] ([''Cd3e'', ''cd3e''] ! 1) = Some ''Cd3e'' \<and>
   check_markers [(''0'', [''Cd3e'', ''Foxp3''])] [(''Tcell'', [''Cd3e'', ''cd3e''])] =
     Inr [(''0'', [(''Tcell'', [''Cd3e'', ''Cd3e''])])] \<and>
   (\<exists>res m found.
      check_markers [(''0'', [''Cd3e'', ''Foxp3''])] [(''Tcell'', [''Cd3e'', ''cd3e''])] = Inr res \<and>
      map_of res ''0'' = Some m \<and> map_of m ''Tcell'' = Some found \<and>
      count_list found ''Cd3e'' =
        length (filter (\<lambda>gene. first_match [''Cd3e'', ''Foxp3''] gene = Some ''Cd3e'')
          [''Cd3e'', ''cd3e'']) \<and>
      2 \<le> count_list found ''Cd3e'' \<and> \<not> distinct found)"
proof -
  have a: "all_compile [(''Tcell'', [''Cd3e'', ''cd3e''])]" by code_simp
  have d1: "distinct (map fst [(''Tcell'', [''Cd3e'', ''cd3e''])])" by simp
  have d2: "distinct (map fst [(''0'', [''Cd3e'', ''Foxp3''])])" by simp
  have i1: "(''0'', [''Cd3e'', ''Foxp3'']) \<in> set [(''0'', [''Cd3e'', ''Foxp3''])]" by simp
  have i2: "(''Tcell'', [''Cd3e'', ''cd3e'']) \<in> set [(''Tcell'', [''Cd3e'', ''cd3e''])]" by simp
  have l1: "(0::nat) < 1" by simp
  have l2: "(1::nat) < length [''Cd3e'', ''cd3e'']" by simp
  have f1: "first_match [''Cd3e'', ''Foxp3''] ([''Cd3e'', ''cd3e''] ! 0) = Some ''Cd3e''"
    by code_simp
  have f2: "first_match [''Cd3e'', ''Foxp3''] ([''Cd3e'', ''cd3e''] ! 1) = Some ''Cd3e''"
    by code_simp
  have c: "check_markers [(''0'', [''Cd3e'', ''Foxp3''])] [(''Tcell'', [''Cd3e'', ''cd3e''])] =
     Inr [(''0'', [(''Tcell'', [''Cd3e'', ''Cd3e''])])]"
    by code_simp
  from check_markers_keeps_duplicates[OF a d1 d2 i1 i2 l1 l2 f1 f2] a d1 d2 f1 f2 c
  show ?thesis by blast
qed

section \<open>Marker patterns are anchored to the whole name\<close>

lemma parse_plain:
  "plain_name p \<Longrightarrow>
   parse bs cur (p @ rest) = parse bs (rev (map (\<lambda>c. One (Lit c)) p) @ cur) rest"
proof (induction p arbitrary: cur)
  case Nil
  then show ?case by simp
next
  case (Cons c p)
  from Cons.prems have c: "c \<noteq> CHR ''|''" "c \<noteq> CHR ''^''" "c \<noteq> CHR ''$''" "c \<noteq> CHR ''.''"
    "c \<noteq> CHR ''*''" "c \<noteq> CHR ''+''" "c \<noteq> CHR ''?''" "c \<noteq> CHR ''(''" "c \<noteq> CHR '')''"
    "c \<noteq> CHR ''[''" "c \<noteq> CHR ''{''" "c \<noteq> backslash" and p: "plain_name p"
    by (auto simp: plain_name_def)
  from c Cons.IH[OF p, of "One (Lit c) # cur"] show ?case by simp
qed

lemma search_bol_false: "search_from ic [Bol # its] False s = False"
  by (induction s) auto

lemma search_bol: "search_from ic [Bol # its] True s = match_here ic its True s"
  by (cases s) (auto simp: search_bol_false)

lemma parse_push:
  assumes "c \<noteq> CHR ''|''" "c \<noteq> CHR ''*''" "c \<noteq> CHR ''+''" "c \<noteq> CHR ''?''"
    "c \<noteq> backslash" "c \<noteq> CHR ''(''" "c \<noteq> CHR '')''" "c \<noteq> CHR ''[''" "c \<noteq> CHR ''{''"
  shows "\<exists>x. \<forall>bs cur ys. parse bs cur (c # ys) = parse bs (x # cur) ys"
proof -
  consider "c = CHR ''^''" | "c = CHR ''$''" | "c = CHR ''.''"
    | "c \<noteq> CHR ''^''" "c \<noteq> CHR ''$''" "c \<noteq> CHR ''.''" by blast
  then show ?thesis
  proof cases
    case 1
    then have "\<forall>bs cur ys. parse bs cur (c # ys) = parse bs (Bol # cur) ys" by simp
    then show ?thesis by blast
  next
    case 2
    then have "\<forall>bs cur ys. parse bs cur (c # ys) = parse bs (Eol # cur) ys" by simp
    then show ?thesis by blast
  next
    case 3
    then have "\<forall>bs cur ys. parse bs cur (c # ys) = parse bs (One AnyChar # cur) ys" by simp
    then show ?thesis by blast
  next
    case 4
    with assms have "\<forall>bs cur ys. parse bs cur (c # ys) = parse bs (One (Lit c) # cur) ys"
      by simp
    then show ?thesis by blast
  qed
qed

lemma parse_quant:
  assumes "c = CHR ''*'' \<or> c = CHR ''+'' \<or> c = CHR ''?''"
  shows "parse bs cur (c # ys) =
     (case cur of
        [] \<Rightarrow> Inl ReError
      | Bol # _ \<Rightarrow> Inl ReError
      | Eol # _ \<Rightarrow> Inl ReError
      | One a # cur' \<Rightarrow> parse bs (quantify c a # cur') ys
      | _ \<Rightarrow> Inl Unmodelled)"
  using assms by auto

lemma parse_backslash:
  "parse bs cur (backslash # ys) =
     (case ys of
        [] \<Rightarrow> Inl ReError
      | d # ds \<Rightarrow> if is_alnum d then Inl Unmodelled else parse bs (One (Lit d) # cur) ds)"
  by (simp add: backslash_def)

lemma parse_unmodelled:
  assumes "c = CHR ''('' \<or> c = CHR '')'' \<or> c = CHR ''['' \<or> c = CHR ''{''"
  shows "parse bs cur (c # ys) = Inl Unmodelled"
  using assms by (auto simp: backslash_def)

lemma parse_no_bar:
  "CHR ''|'' \<notin> set p \<Longrightarrow> parse bs1 c1 p = Inr r \<Longrightarrow>
   \<exists>c'. r = rev (rev c' # bs1) \<and>
     (\<forall>bs2 c0 rest. parse bs2 (c1 @ c0) (p @ rest) = parse bs2 (c' @ c0) rest)"
proof (induction p arbitrary: c1 r rule: length_induct)
  case (1 p)
  have IH: "\<exists>c'. r' = rev (rev c' # bs1) \<and>
     (\<forall>bs2 c0 rest. parse bs2 (c2 @ c0) (q @ rest) = parse bs2 (c' @ c0) rest)"
    if "length q < length p" "CHR ''|'' \<notin> set q" "parse bs1 c2 q = Inr r'" for q c2 r'
    using "1.IH" that by blast
  show ?case
  proof (cases p)
    case Nil
    with "1.prems" have "r = rev (rev c1 # bs1)" by simp
    with Nil show ?thesis by auto
  next
    case (Cons c cs)
    with "1.prems" have nb: "c \<noteq> CHR ''|''" "CHR ''|'' \<notin> set cs" by auto
    have len: "length cs < length p" by (simp add: Cons)
    consider (quant) "c = CHR ''*'' \<or> c = CHR ''+'' \<or> c = CHR ''?''"
      | (bsl) "c = backslash"
      | (unm) "c = CHR ''('' \<or> c = CHR '')'' \<or> c = CHR ''['' \<or> c = CHR ''{''"
      | (push) "c \<noteq> CHR ''*''" "c \<noteq> CHR ''+''" "c \<noteq> CHR ''?''" "c \<noteq> backslash"
          "c \<noteq> CHR ''(''" "c \<noteq> CHR '')''" "c \<noteq> CHR ''[''" "c \<noteq> CHR ''{''"
      by blast
    then show ?thesis
    proof cases
      case quant
      note q = parse_quant[OF quant]
      from "1.prems"(2) obtain a cur' where c1: "c1 = One a # cur'"
        and pr: "parse bs1 (quantify c a # cur') cs = Inr r"
        unfolding Cons q by (auto split: list.splits item.splits)
      from IH[OF len nb(2) pr] obtain c' where r: "r = rev (rev c' # bs1)"
        and f: "\<forall>bs2 c0 rest. parse bs2 ((quantify c a # cur') @ c0) (cs @ rest) = parse bs2 (c' @ c0) rest"
        by blast
      have "parse bs2 (c1 @ c0) (p @ rest) = parse bs2 (c' @ c0) rest" for bs2 c0 rest
      proof -
        have "parse bs2 (c1 @ c0) (p @ rest) = parse bs2 ((quantify c a # cur') @ c0) (cs @ rest)"
          unfolding Cons c1 by (simp only: append_Cons q list.case item.case)
        with f show ?thesis by simp
      qed
      with r show ?thesis by blast
    next
      case bsl
      from "1.prems"(2) obtain d ds where cs: "cs = d # ds" and na: "\<not> is_alnum d"
        and pr: "parse bs1 (One (Lit d) # c1) ds = Inr r"
        unfolding Cons bsl parse_backslash by (auto split: list.splits if_splits)
      have len': "length ds < length p" by (simp add: Cons cs)
      from nb(2) cs have nb': "CHR ''|'' \<notin> set ds" by simp
      from IH[OF len' nb' pr] obtain c' where r: "r = rev (rev c' # bs1)"
        and f: "\<forall>bs2 c0 rest. parse bs2 ((One (Lit d) # c1) @ c0) (ds @ rest) = parse bs2 (c' @ c0) rest"
        by blast
      have "parse bs2 (c1 @ c0) (p @ rest) = parse bs2 (c' @ c0) rest" for bs2 c0 rest
      proof -
        have "parse bs2 (c1 @ c0) (p @ rest) = parse bs2 ((One (Lit d) # c1) @ c0) (ds @ rest)"
          unfolding Cons bsl cs using na by (simp only: append_Cons parse_backslash list.case if_False)
        with f show ?thesis by simp
      qed
      with r show ?thesis by blast
    next
      case unm
      from "1.prems"(2) show ?thesis unfolding Cons parse_unmodelled[OF unm] by simp
    next
      case push
      from parse_push[OF nb(1) push] obtain x where
        x: "\<And>bs cur ys. parse bs cur (c # ys) = parse bs (x # cur) ys" by blast
      from "1.prems"(2) have pr: "parse bs1 (x # c1) cs = Inr r" unfolding Cons x .
      from IH[OF len nb(2) pr] obtain c' where r: "r = rev (rev c' # bs1)"
        and f: "\<forall>bs2 c0 rest. parse bs2 ((x # c1) @ c0) (cs @ rest) = parse bs2 (c' @ c0) rest"
        by blast
      have "parse bs2 (c1 @ c0) (p @ rest) = parse bs2 (c' @ c0) rest" for bs2 c0 rest
      proof -
        have "parse bs2 (c1 @ c0) (p @ rest) = parse bs2 ((x # c1) @ c0) (cs @ rest)"
          unfolding Cons by (simp only: append_Cons x)
        with f show ?thesis by simp
      qed
      with r show ?thesis by blast
    qed
  qed
qed

lemma compile_anchored_no_bar:
  assumes "no_bar p"
  shows "\<exists>b. re_compile p = Inr [b] \<and> re_compile (anchored p) = Inr [Bol # b @ [Eol]]"
proof -
  from assms obtain r where nb: "CHR ''|'' \<notin> set p" and r: "parse [] [] p = Inr r"
    by (auto simp: no_bar_def re_compile_def split: sum.splits)
  from parse_no_bar[OF nb r] obtain c' where r': "r = [rev c']"
    and f: "\<And>bs2 c0 rest. parse bs2 ([] @ c0) (p @ rest) = parse bs2 (c' @ c0) rest"
    by auto
  have "parse [] [] (anchored p) = parse [] ([] @ [Bol]) (p @ ''$'')"
    by (simp add: anchored_def)
  also have "\<dots> = parse [] (c' @ [Bol]) ''$''" by (rule f)
  also have "\<dots> = Inr [Bol # rev c' @ [Eol]]" by simp
  finally show ?thesis using r r' by (simp add: re_compile_def)
qed

lemma ends_with_newline_tail: "\<not> ends_with_newline (c # cs) \<Longrightarrow> \<not> ends_with_newline cs"
  by (cases "rev cs") (auto simp: ends_with_newline_def)

lemma eol_is_eos:
  "\<not> ends_with_newline s \<Longrightarrow>
   match_here ic (its @ [Eol]) bos s = match_here ic (its @ [Eos]) bos s"
proof (induction ic its bos s rule: match_here.induct)
  case (1 ic bos s)
  then show ?case by (auto simp: ends_with_newline_def)
qed (auto dest: ends_with_newline_tail)

lemma anchored_search_is_fullmatch:
  assumes "no_bar p" "\<not> ends_with_newline s"
  shows "\<exists>r. re_compile (anchored p) = Inr r \<and> re_search ic r s = fullmatches ic p s"
proof -
  from compile_anchored_no_bar[OF assms(1)] obtain b where
    c: "re_compile p = Inr [b]" and a: "re_compile (anchored p) = Inr [Bol # b @ [Eol]]"
    by blast
  have "re_search ic [Bol # b @ [Eol]] s = match_here ic (b @ [Eol]) True s"
    by (simp add: re_search_def search_bol)
  also have "\<dots> = match_here ic (b @ [Eos]) True s"
    using assms(2) by (rule eol_is_eos)
  also have "\<dots> = fullmatches ic p s"
    by (simp add: fullmatches_def c re_fullmatch_def)
  finally show ?thesis using a by blast
qed

lemma matching_no_bar:
  assumes "no_bar p" "no_final_newline names"
  shows "\<exists>r. re_compile (anchored p) = Inr r \<and>
           matching ic r names = filter (fullmatches ic p) names"
proof -
  from compile_anchored_no_bar[OF assms(1)] obtain r where
    a: "re_compile (anchored p) = Inr r" by blast
  have "re_search ic r l = fullmatches ic p l" if "l \<in> set names" for l
  proof -
    from that assms(2) have "\<not> ends_with_newline l"
      by (auto simp: no_final_newline_def list_all_iff)
    from anchored_search_is_fullmatch[OF assms(1) this, of ic] a show ?thesis by simp
  qed
  then have "matching ic r names = filter (fullmatches ic p) names"
    unfolding matching_def by (auto intro: filter_cong)
  with a show ?thesis by blast
qed

lemma markers_loop_whole:
  "list_all no_bar pats \<Longrightarrow> no_final_newline names \<Longrightarrow>
   markers_loop names pats found = Inr (found @ concat (map (first_whole True names) pats))"
proof (induction pats arbitrary: found)
  case Nil
  then show ?case by simp
next
  case (Cons gene rest)
  from Cons.prems have p: "no_bar gene" and r: "list_all no_bar rest" by auto
  from matching_no_bar[OF p Cons.prems(2), of True] obtain regex where
    c: "re_compile (anchored gene) = Inr regex"
    and m: "matching True regex names = filter (fullmatches True gene) names" by blast
  show ?case
  proof (cases "filter (fullmatches True gene) names")
    case Nil
    with c m Cons.IH[OF r Cons.prems(2), of found] show ?thesis
      by (simp add: first_whole_def)
  next
    case (Cons l ls)
    with c m Cons.IH[OF r Cons.prems(2), of "found @ [l]"] show ?thesis
      by (simp add: first_whole_def)
  qed
qed

lemma category_loop_whole:
  "list_all no_bar pats \<Longrightarrow> no_final_newline names \<Longrightarrow>
   category_loop ic names pats genes not_found =
     Inr (genes @ concat (map (first_whole ic names) pats),
          not_found @ filter (\<lambda>gene. first_whole ic names gene = []) pats)"
proof (induction pats arbitrary: genes not_found)
  case Nil
  then show ?case by simp
next
  case (Cons gene rest)
  from Cons.prems have p: "no_bar gene" and r: "list_all no_bar rest" by auto
  from matching_no_bar[OF p Cons.prems(2), of ic] obtain regex where
    c: "re_compile (anchored gene) = Inr regex"
    and m: "matching ic regex names = filter (fullmatches ic gene) names" by blast
  show ?case
  proof (cases "filter (fullmatches ic gene) names")
    case Nil
    with c m Cons.IH[OF r Cons.prems(2), of genes "not_found @ [gene]"] show ?thesis
      by (simp add: first_whole_def)
  next
    case (Cons l ls)
    with c m Cons.IH[OF r Cons.prems(2), of "genes @ [l]" not_found] show ?thesis
      by (simp add: first_whole_def)
  qed
qed

lemma match_lits_eos:
  "match_here ic (map (\<lambda>c. One (Lit c)) p @ [Eos]) bos s = same_name ic p s"
proof (induction p arbitrary: s bos)
  case Nil
  then show ?case by (cases s) (auto simp: same_name_def)
next
  case (Cons c p)
  show ?case
  proof (cases s)
    case Nil
    then show ?thesis by (simp add: same_name_def)
  next
    case (Cons x xs)
    with Cons.IH[of False xs] show ?thesis by (auto simp: same_name_def)
  qed
qed

lemma fullmatches_plain:
  assumes "plain_name p"
  shows "fullmatches ic p s = same_name ic p s"
proof -
  have "parse [] [] (p @ []) = parse [] (rev (map (\<lambda>c. One (Lit c)) p) @ []) []"
    using assms by (rule parse_plain)
  then have "re_compile p = Inr [map (\<lambda>c. One (Lit c)) p]"
    by (simp add: re_compile_def)
  then show ?thesis by (simp add: fullmatches_def re_fullmatch_def match_lits_eos)
qed

text \<open>
  C2, as amended. \<^verbatim>\<open>check_markers\<close> matches its patterns ignoring case, the
  marker-category branch of \<^verbatim>\<open>plot_markers\<close> ignores case exactly when
  \<^verbatim>\<open>ignore_case\<close> is set. For every pattern without \<^verbatim>\<open>|\<close> that compiles and
  every feature name that does not end in a newline, the pattern matches the name
  exactly when the whole name matches the pattern, and each loop takes the first such
  name. For a plain name as pattern, on ASCII names, that is equality of the two names,
  up to case where case is ignored: the pattern \<^verbatim>\<open>Cd3\<close> does not match the feature
  \<^verbatim>\<open>Cd3e\<close>.
\<close>

theorem markers_match_whole_name:
  assumes "list_all no_bar pats" and "no_final_newline names"
  shows "markers_loop names pats found =
           Inr (found @ concat (map (first_whole True names) pats)) \<and>
         category_loop ic names pats genes not_found =
           Inr (genes @ concat (map (first_whole ic names) pats),
                not_found @ filter (\<lambda>gene. first_whole ic names gene = []) pats) \<and>
         (markers args = Some mk \<and> \<not> protein args \<and> map_of mk (key args) = Some pats \<longrightarrow>
            snd (resolve_genes a args names) =
              Inr (concat (map (first_whole (ignore_case args) names) pats))) \<and>
         (no_bar p \<and> \<not> ends_with_newline s \<longrightarrow>
            (\<exists>r. re_compile (anchored p) = Inr r \<and> re_search ic r s = fullmatches ic p s)) \<and>
         (plain_name p \<and> is_ascii p \<and> is_ascii s \<longrightarrow> fullmatches ic p s = same_name ic p s) \<and>
         fullmatches ic ''Cd3'' ''Cd3e'' = False \<and>
         markers_loop [''Cd3e''] [''Cd3''] [] = Inr [] \<and>
         category_loop ic [''Cd3e''] [''Cd3''] [] [] = Inr ([], [''Cd3''])"
proof -
  have r: "snd (resolve_genes a args names) =
      Inr (concat (map (first_whole (ignore_case args) names) pats))"
    if "markers args = Some mk" "\<not> protein args" "map_of mk (key args) = Some pats"
    using that category_loop_whole[OF assms, of "ignore_case args" "[]" "[]"]
    by (simp add: resolve_genes_def)
  have pl: "plain_name ''Cd3''" by (simp add: plain_name_def backslash_def)
  have fm: "fullmatches c ''Cd3'' ''Cd3e'' = False" for c
    by (simp add: fullmatches_plain[OF pl] same_name_def)
  have p: "list_all no_bar [''Cd3'']" by code_simp
  have n: "no_final_newline [''Cd3e'']" by code_simp
  have s: "first_whole c [''Cd3e''] ''Cd3'' = []" for c
    by (simp add: first_whole_def fm)
  have e1: "markers_loop [''Cd3e''] [''Cd3''] [] = Inr []"
    using markers_loop_whole[OF p n, of "[]"] s by simp
  have e2: "category_loop ic [''Cd3e''] [''Cd3''] [] [] = Inr ([], [''Cd3''])"
    using category_loop_whole[OF p n, of ic "[]" "[]"] s by simp
  from markers_loop_whole[OF assms] category_loop_whole[OF assms] r
    anchored_search_is_fullmatch fullmatches_plain fm e1 e2
  show ?thesis by blast
qed

text \<open>
  An instance: \<^verbatim>\<open>Cd3.\<close> finds \<^verbatim>\<open>Cd3e\<close>; with case ignored \<^verbatim>\<open>cd4\<close> finds
  \<^verbatim>\<open>CD4\<close>, without it nothing.
\<close>

theorem markers_match_whole_name_witness:
  "list_all no_bar [''Cd3.'', ''cd4''] \<and> no_final_newline [''Cd3e'', ''CD4'', ''Cd4''] \<and>
   no_bar ''Cd3.'' \<and> \<not> ends_with_newline ''Cd3e'' \<and>
   plain_name ''cd4'' \<and> is_ascii ''cd4'' \<and> is_ascii ''CD4'' \<and>
   markers_loop [''Cd3e'', ''CD4'', ''Cd4''] [''Cd3.'', ''cd4''] [] = Inr [''Cd3e'', ''CD4''] \<and>
   category_loop True [''Cd3e'', ''CD4'', ''Cd4''] [''Cd3.'', ''cd4''] [] [] =
     Inr ([''Cd3e'', ''CD4''], []) \<and>
   category_loop False [''Cd3e'', ''CD4'', ''Cd4''] [''Cd3.'', ''cd4''] [] [] =
     Inr ([''Cd3e''], [''cd4'']) \<and>
   (\<exists>r. re_compile (anchored ''Cd3.'') = Inr r \<and>
      re_search True r ''Cd3e'' = fullmatches True ''Cd3.'' ''Cd3e'') \<and>
   fullmatches True ''cd4'' ''CD4'' = same_name True ''cd4'' ''CD4''"
proof -
  have p: "list_all no_bar [''Cd3.'', ''cd4'']" by code_simp
  have n: "no_final_newline [''Cd3e'', ''CD4'', ''Cd4'']" by code_simp
  have nb: "no_bar ''Cd3.''" by code_simp
  have ne: "\<not> ends_with_newline ''Cd3e''" by code_simp
  have pl: "plain_name ''cd4''" by code_simp
  have a1: "is_ascii ''cd4''" by code_simp
  have a2: "is_ascii ''CD4''" by code_simp
  have t: "concat (map (first_whole True [''Cd3e'', ''CD4'', ''Cd4'']) [''Cd3.'', ''cd4'']) =
      [''Cd3e'', ''CD4'']"
    by code_simp
  have t': "filter (\<lambda>gene. first_whole True [''Cd3e'', ''CD4'', ''Cd4''] gene = [])
      [''Cd3.'', ''cd4''] = []"
    by code_simp
  have f: "concat (map (first_whole False [''Cd3e'', ''CD4'', ''Cd4'']) [''Cd3.'', ''cd4'']) =
      [''Cd3e'']"
    by code_simp
  have f': "filter (\<lambda>gene. first_whole False [''Cd3e'', ''CD4'', ''Cd4''] gene = [])
      [''Cd3.'', ''cd4''] = [''cd4'']"
    by code_simp
  note th = markers_match_whole_name[OF p n]
  from th[of "[]" True "[]" "[]"] t t'
  have a: "markers_loop [''Cd3e'', ''CD4'', ''Cd4''] [''Cd3.'', ''cd4''] [] = Inr [''Cd3e'', ''CD4''] \<and>
     category_loop True [''Cd3e'', ''CD4'', ''Cd4''] [''Cd3.'', ''cd4''] [] [] =
       Inr ([''Cd3e'', ''CD4''], [])"
    by simp
  from th[of "[]" False "[]" "[]"] f f'
  have b: "category_loop False [''Cd3e'', ''CD4'', ''Cd4''] [''Cd3.'', ''cd4''] [] [] =
     Inr ([''Cd3e''], [''cd4''])"
    by simp
  from th[of "[]" True "[]" "[]" _ _ _ "''Cd3.''" "''Cd3e''"] nb ne
  have c: "\<exists>r. re_compile (anchored ''Cd3.'') = Inr r \<and>
      re_search True r ''Cd3e'' = fullmatches True ''Cd3.'' ''Cd3e''"
    by blast
  from th[of "[]" True "[]" "[]" _ _ _ "''cd4''" "''CD4''"] pl a1 a2
  have d: "fullmatches True ''cd4'' ''CD4'' = same_name True ''cd4'' ''CD4''"
    by blast
  from p n nb ne pl a1 a2 a b c d show ?thesis by blast
qed

text \<open>
  C2 as stated fails. In \<^verbatim>\<open>plot_markers\<close> with \<^verbatim>\<open>ignore_case=False\<close> the marker
  \<^verbatim>\<open>cd3e\<close> does not find the feature \<^verbatim>\<open>Cd3e\<close>. The anchors bind tighter than
  \<^verbatim>\<open>|\<close>, so the pattern \<^verbatim>\<open>Cd3|Cd4\<close> finds the feature \<^verbatim>\<open>Cd3e\<close>, which it does
  not match as a whole; and \<^verbatim>\<open>$\<close> also matches before a final newline.
\<close>

theorem marker_matching_counterexample:
  "snd (plot_markers cd3e_data
      ((default_args ''Tcell'')\<lparr>markers := Some [(''Tcell'', [''cd3e''])], ignore_case := False\<rparr>)) =
     Inl (ValueError NothingToPlot) \<and>
   check_markers [(''0'', [''Cd3e''])] [(''Tcell'', [''Cd3|Cd4''])] =
     Inr [(''0'', [(''Tcell'', [''Cd3e''])])] \<and>
   fullmatches True ''Cd3|Cd4'' ''Cd3e'' = False \<and>
   fullmatches True ''Cd3'' (''Cd3'' @ [newline]) = False \<and>
   check_markers [(''0'', [''Cd3'' @ [newline]])] [(''Tcell'', [''Cd3''])] =
     Inr [(''0'', [(''Tcell'', [''Cd3'' @ [newline]])])]"
  by code_simp

section \<open>\<^verbatim>\<open>plot_markers\<close>: truncation, the free-text search and the errors\<close>

lemma plot_markers_cases:
  "plot_markers a args =
     (if map_of (obsm a) (''X_'' @ basis args) = None then
        ([], Inl (ValueError (BasisNotComputed (basis args))))
      else
        (let n1 = fst (get_var_names a (use_raw args));
             n2 = fst (resolve_genes a args (snd (get_var_names a (use_raw args))));
             notes = [CurrentKey (key args), BasisNote (basis args)] @ n1 @ n2
         in case resolved a args of
           Inl e \<Rightarrow> (notes, Inl e)
         | Inr genes \<Rightarrow>
             if genes = [] then (notes, Inl (ValueError NothingToPlot))
             else if int (length genes) > n_max args
             then (notes @ [FoundMatches (length genes),
                     if protein args then PlottingProteins (slice_to genes (n_max args))
                     else PlottingGenes (slice_to genes (n_max args))],
                   Inr (slice_to genes (n_max args)))
             else (notes @ [if protein args then PlottingProteins genes else PlottingGenes genes],
                   Inr genes)))"
  by (auto simp: plot_markers_def resolved_def Let_def split: prod.splits sum.splits)

text \<open>
  C6, as amended. When \<^verbatim>\<open>n_max\<close> is not negative and \<^verbatim>\<open>plot_markers\<close> gets as far
  as plotting, it plots at most \<^verbatim>\<open>n_max\<close> features: the first \<^verbatim>\<open>n_max\<close> of the
  resolved list, and when the resolved list is longer it prints how many matches were
  found.
\<close>

theorem plot_markers_truncates:
  assumes "0 \<le> n_max args" and "plot_markers a args = (notes, Inr genes)"
  shows "int (length genes) \<le> n_max args \<and>
         (\<exists>found. resolved a args = Inr found \<and> genes = take (nat (n_max args)) found \<and>
            (n_max args < int (length found) \<longrightarrow> FoundMatches (length found) \<in> set notes))"
proof -
  from assms(2) have b: "map_of (obsm a) (''X_'' @ basis args) \<noteq> None"
    by (auto simp: plot_markers_cases split: if_splits)
  from assms(2) b obtain found where f: "resolved a args = Inr found"
    by (cases "resolved a args") (auto simp: plot_markers_cases Let_def split: if_splits)
  from assms(2) b f have ne: "found \<noteq> []"
    by (auto simp: plot_markers_cases Let_def split: if_splits)
  show ?thesis
  proof (cases "n_max args < int (length found)")
    case True
    with assms b f ne have "genes = take (nat (n_max args)) found"
      and "FoundMatches (length found) \<in> set notes"
      by (auto simp: plot_markers_cases Let_def slice_to_def split: if_splits)
    with f True assms(1) show ?thesis by auto
  next
    case False
    with assms b f ne have "genes = found"
      by (auto simp: plot_markers_cases Let_def split: if_splits)
    with f False show ?thesis by auto
  qed
qed

text \<open>An instance: three matches, of which two are plotted.\<close>

theorem plot_markers_truncates_witness:
  "(0::int) \<le> n_max ((default_args ''cd'')\<lparr>markers := Some [], n_max := 2\<rparr>) \<and>
   plot_markers marker_data ((default_args ''cd'')\<lparr>markers := Some [], n_max := 2\<rparr>) =
     ([CurrentKey ''cd'', BasisNote ''umap'', UsingRaw, RawMissing, KeyNotInMarkers,
       FoundMatches 3, PlottingGenes [''Cd3e'', ''Cd3d'']],
      Inr [''Cd3e'', ''Cd3d'']) \<and>
   int (length [''Cd3e'', ''Cd3d'']) \<le> n_max ((default_args ''cd'')\<lparr>markers := Some [], n_max := 2\<rparr>) \<and>
   resolved marker_data ((default_args ''cd'')\<lparr>markers := Some [], n_max := 2\<rparr>) =
     Inr [''Cd3e'', ''Cd3d'', ''Cd4'']"
proof -
  have n: "(0::int) \<le> n_max ((default_args ''cd'')\<lparr>markers := Some [], n_max := 2\<rparr>)"
    by (simp add: default_args_def)
  have p: "plot_markers marker_data ((default_args ''cd'')\<lparr>markers := Some [], n_max := 2\<rparr>) =
     ([CurrentKey ''cd'', BasisNote ''umap'', UsingRaw, RawMissing, KeyNotInMarkers,
       FoundMatches 3, PlottingGenes [''Cd3e'', ''Cd3d'']],
      Inr [''Cd3e'', ''Cd3d''])"
    by code_simp
  have r: "resolved marker_data ((default_args ''cd'')\<lparr>markers := Some [], n_max := 2\<rparr>) =
     Inr [''Cd3e'', ''Cd3d'', ''Cd4'']"
    by code_simp
  from plot_markers_truncates[OF n p] n p r show ?thesis by blast
qed

text \<open>
  C6 as stated fails. With \<^verbatim>\<open>n_max = -1\<close> the slice \<^verbatim>\<open>genes[:n_max]\<close> drops the
  last match only, and two features are plotted. With \<^verbatim>\<open>n_max = 1\<close> and three
  matches, two are dropped and the number printed is 3, the number found.
\<close>

theorem plot_markers_truncation_counterexample:
  "plot_markers marker_data ((default_args ''cd'')\<lparr>markers := Some [], n_max := - 1\<rparr>) =
     ([CurrentKey ''cd'', BasisNote ''umap'', UsingRaw, RawMissing, KeyNotInMarkers,
       FoundMatches 3, PlottingGenes [''Cd3e'', ''Cd3d'']],
      Inr [''Cd3e'', ''Cd3d'']) \<and>
   plot_markers marker_data ((default_args ''cd'')\<lparr>markers := Some [], n_max := 1\<rparr>) =
     ([CurrentKey ''cd'', BasisNote ''umap'', UsingRaw, RawMissing, KeyNotInMarkers,
       FoundMatches 3, PlottingGenes [''Cd3e'']],
      Inr [''Cd3e''])"
  by code_simp

text \<open>
  C4, on the code. With a markers dictionary that lacks the key, the search ignores
  case whatever \<^verbatim>\<open>ignore_case\<close> is: with \<^verbatim>\<open>ignore_case=False\<close> the key
  \<^verbatim>\<open>cd3e\<close> finds the feature \<^verbatim>\<open>Cd3e\<close>. Without a markers dictionary the key is
  not one pattern: its characters are searched one by one, and the key \<^verbatim>\<open>Cd4\<close>
  ends in a \<^verbatim>\<open>TypeError\<close>, because \<^verbatim>\<open>C\<close> is found in three names.
\<close>

theorem free_text_search_always_ignores_case:
  "search_var_names False k names = search_var_names True k names \<and>
   plot_markers cd3e_data
      ((default_args ''cd3e'')\<lparr>markers := Some [(''Tcell'', [''Cd4''])], ignore_case := False\<rparr>) =
     ([CurrentKey ''cd3e'', BasisNote ''umap'', UsingRaw, RawMissing, KeyNotInMarkers,
       PlottingGenes [''Cd3e'']],
      Inr [''Cd3e'']) \<and>
   plot_markers marker_data (default_args ''Cd4'') =
     ([CurrentKey ''Cd4'', BasisNote ''umap'', UsingRaw, RawMissing, NoMarkers], Inl TypeError)"
proof -
  have "search_var_names False k names = search_var_names True k names"
    by (simp add: search_var_names_def)
  moreover have "plot_markers cd3e_data
      ((default_args ''cd3e'')\<lparr>markers := Some [(''Tcell'', [''Cd4''])], ignore_case := False\<rparr>) =
     ([CurrentKey ''cd3e'', BasisNote ''umap'', UsingRaw, RawMissing, KeyNotInMarkers,
       PlottingGenes [''Cd3e'']],
      Inr [''Cd3e''])"
    by code_simp
  moreover have "plot_markers marker_data (default_args ''Cd4'') =
     ([CurrentKey ''Cd4'', BasisNote ''umap'', UsingRaw, RawMissing, NoMarkers], Inl TypeError)"
    by code_simp
  ultimately show ?thesis by blast
qed

text \<open>
  Without a markers dictionary and protein mode, a key whose first character is not
  found in exactly one feature name ends in a \<^verbatim>\<open>TypeError\<close>.
\<close>

lemma no_markers_unmatched_character:
  assumes "map_of (obsm a) (''X_'' @ basis args) \<noteq> None"
    and "markers args = None" "\<not> protein args" "key args = c # rest"
    and "re_compile [c] = Inr reg_ex"
    and "length (matching (ignore_case args) reg_ex (snd (get_var_names a (use_raw args)))) \<noteq> 1"
  shows "snd (plot_markers a args) = Inl TypeError"
proof -
  let ?names = "snd (get_var_names a (use_raw args))"
  have "chars_loop (ignore_case args) ?names (c # rest) [] = Inl TypeError"
    using assms(5,6)
    by (cases "matching (ignore_case args) reg_ex ?names" rule: remdups_adj.cases) auto
  then have "resolved a args = Inl TypeError"
    using assms(2,3,4) by (simp add: resolved_def resolve_genes_def)
  with assms(1) show ?thesis by (auto simp: plot_markers_cases Let_def)
qed

text \<open>
  C5, on the code. Without a markers dictionary, a key that matches no feature name
  does not reach the test for an empty list: the key \<^verbatim>\<open>z\<close> compiles, no feature
  name matches it, and \<^verbatim>\<open>genes.append()\<close> with no argument raises a
  \<^verbatim>\<open>TypeError\<close>, not a \<^verbatim>\<open>ValueError\<close>.
\<close>

theorem no_match_without_markers_is_type_error:
  "re_compile ''z'' = Inr [[One (Lit CHR ''z'')]] \<and>
   matching True [[One (Lit CHR ''z'')]] (var_names cd3e_data) = [] \<and>
   plot_markers cd3e_data (default_args ''z'') =
     ([CurrentKey ''z'', BasisNote ''umap'', UsingRaw, RawMissing, NoMarkers], Inl TypeError)"
proof -
  have c: "re_compile ''z'' = Inr [[One (Lit CHR ''z'')]]"
    by code_simp
  have m: "matching True [[One (Lit CHR ''z'')]] (var_names cd3e_data) = []"
    by code_simp
  have p: "plot_markers cd3e_data (default_args ''z'') =
     ([CurrentKey ''z'', BasisNote ''umap'', UsingRaw, RawMissing, NoMarkers], Inl TypeError)"
    by code_simp
  from c m p show ?thesis by blast
qed

text \<open>
  When \<^verbatim>\<open>plot_markers\<close> does raise a \<^verbatim>\<open>ValueError\<close>: for a missing basis, for
  one raised in protein mode while resolving, and for an empty resolved list.
\<close>

lemma plot_markers_value_error:
  "snd (plot_markers a args) = Inl (ValueError e) \<longleftrightarrow>
     (if map_of (obsm a) (''X_'' @ basis args) = None then e = BasisNotComputed (basis args)
      else resolved a args = Inl (ValueError e) \<or> (resolved a args = Inr [] \<and> e = NothingToPlot))"
  by (auto simp: plot_markers_cases Let_def split: sum.splits)

section \<open>\<^verbatim>\<open>map_to_mgi\<close> writes one symbol for every feature\<close>

lemma map_of_drop_seen:
  "map_of (drop_seen seen conv) v = (if v \<in> set seen then None else map_of conv v)"
proof (induction conv arbitrary: seen)
  case Nil
  then show ?case by simp
next
  case (Cons row rows)
  show ?case
    by (cases row) (auto simp: Cons.IH)
qed

lemma fst_drop_seen: "fst ` set (drop_seen seen conv) \<inter> set seen = {}"
proof (induction conv arbitrary: seen)
  case Nil
  then show ?case by simp
next
  case (Cons row rows)
  from Cons.IH[of seen] Cons.IH[of "fst row # seen"] show ?case by auto
qed

lemma distinct_drop_seen: "distinct (map fst (drop_seen seen conv))"
proof (induction conv arbitrary: seen)
  case Nil
  then show ?case by simp
next
  case (Cons row rows)
  from fst_drop_seen[of "fst row # seen" rows] Cons.IH show ?case by auto
qed

lemma filter_distinct_key:
  "distinct (map fst conv) \<Longrightarrow>
   filter (\<lambda>row. fst row = v) conv = (case map_of conv v of None \<Rightarrow> [] | Some s \<Rightarrow> [(v, s)])"
proof (induction conv)
  case Nil
  then show ?case by simp
next
  case (Cons row rows)
  obtain k s where r: "row = (k, s)" by (cases row)
  from Cons.prems have d: "distinct (map fst rows)" and k: "k \<notin> fst ` set rows" by (auto simp: r)
  show ?case
  proof (cases "k = v")
    case True
    with k have "map_of rows v = None" by (simp add: map_of_eq_None_iff)
    with Cons.IH[OF d] True show ?thesis by (simp add: r)
  next
    case False
    with Cons.IH[OF d] show ?thesis by (simp add: r)
  qed
qed

lemma join_rows_distinct:
  "distinct (map fst conv) \<Longrightarrow>
   join_rows conv v = [(v, case map_of conv v of None \<Rightarrow> None | Some s \<Rightarrow> s)]"
  by (simp add: join_rows_def filter_distinct_key split: option.splits)

lemma left_join_distinct:
  "distinct (map fst conv) \<Longrightarrow>
   left_join names conv =
     map (\<lambda>v. (v, case map_of conv v of None \<Rightarrow> None | Some s \<Rightarrow> s)) names"
  by (induction names) (simp_all add: left_join_def join_rows_distinct)

lemma left_join_drop_duplicates:
  "left_join names (drop_duplicates conv) =
     map (\<lambda>v. (v, case map_of conv v of None \<Rightarrow> None | Some s \<Rightarrow> s)) names"
proof -
  have "distinct (map fst (drop_duplicates conv))"
    by (simp add: drop_duplicates_def distinct_drop_seen)
  moreover have "map_of (drop_duplicates conv) = map_of conv"
    by (rule ext) (simp add: drop_duplicates_def map_of_drop_seen)
  ultimately show ?thesis by (simp add: left_join_distinct)
qed

lemma fillna_symbols:
  "fillna (map snd (left_join names (drop_duplicates conv)))
          (map (\<lambda>row. Some (fst row)) (left_join names (drop_duplicates conv))) =
     map (\<lambda>v. Some (symbol_of conv v)) names"
  by (induction names)
     (auto simp: left_join_drop_duplicates fillna_def symbol_of_def split: option.splits)

lemma map_to_mgi_eq:
  "map_to_mgi a conv =
     Inr (a\<lparr>var := AList.update ''mgi_symbols''
            (map (\<lambda>v. Some (symbol_of conv v)) (var_names a)) (var a)\<rparr>)"
  by (simp add: map_to_mgi_def Let_def fillna_symbols)

text \<open>
  C9. After the duplicates are dropped, the left join has exactly the features as its
  first column, in their order, and \<^verbatim>\<open>map_to_mgi\<close> always returns, with the
  annotation \<^verbatim>\<open>mgi_symbols\<close> holding for every feature, in the order of the feature
  names, the symbol that belongs to it.
\<close>

theorem map_to_mgi_one_symbol_per_feature:
  "map fst (left_join (var_names a) (drop_duplicates conv_table)) = var_names a \<and>
   map_to_mgi a conv_table =
     Inr (a\<lparr>var := AList.update ''mgi_symbols''
            (map (\<lambda>v. Some (symbol_of conv_table v)) (var_names a)) (var a)\<rparr>)"
proof -
  have "map fst (left_join (var_names a) (drop_duplicates conv_table)) = var_names a"
    by (simp add: left_join_drop_duplicates comp_def)
  with map_to_mgi_eq show ?thesis by blast
qed

text \<open>On a table that still has a repeated identifier the join adds a row.\<close>

lemma left_join_duplicates_add_rows:
  "left_join [''ENSMUSG1''] [(''ENSMUSG1'', Some ''Actb''), (''ENSMUSG1'', Some ''Actg1'')] =
     [(''ENSMUSG1'', Some ''Actb''), (''ENSMUSG1'', Some ''Actg1'')]"
  by code_simp

text \<open>
  C8. \<^verbatim>\<open>map_to_mgi\<close> writes an annotation \<^verbatim>\<open>mgi_symbols\<close> with one entry for
  every feature and no missing value, and a feature whose identifier has no symbol
  in the conversion table gets its identifier: with no symbol for \<^verbatim>\<open>ENSMUSG1\<close>
  the symbol written is \<^verbatim>\<open>ENSMUSG1\<close>.
\<close>

theorem map_to_mgi_fills_missing_symbols:
  "\<exists>a' col. map_to_mgi a conv_table = Inr a' \<and> var_names a' = var_names a \<and>
     map_of (var a') ''mgi_symbols'' = Some col \<and>
     length col = length (var_names a) \<and> None \<notin> set col \<and>
     (\<forall>i<length (var_names a).
        unmapped conv_table (var_names a ! i) \<longrightarrow> col ! i = Some (var_names a ! i)) \<and>
     map_to_mgi mgi_example [(''ENSMUSG1'', None), (''ENSMUSG2'', Some ''Actb'')] =
       Inr (mgi_example\<lparr>var := [(''mgi_symbols'', [Some ''ENSMUSG1'', Some ''Actb''])]\<rparr>)"
proof -
  have "map_to_mgi mgi_example [(''ENSMUSG1'', None), (''ENSMUSG2'', Some ''Actb'')] =
       Inr (mgi_example\<lparr>var := [(''mgi_symbols'', [Some ''ENSMUSG1'', Some ''Actb''])]\<rparr>)"
    by code_simp
  moreover
  let ?col = "map (\<lambda>v. Some (symbol_of conv_table v)) (var_names a)"
  let ?a' = "a\<lparr>var := AList.update ''mgi_symbols'' ?col (var a)\<rparr>"
  have "map_to_mgi a conv_table = Inr ?a'" by (rule map_to_mgi_eq)
  moreover have "var_names ?a' = var_names a" by simp
  moreover have "map_of (var ?a') ''mgi_symbols'' = Some ?col" by (simp add: update_conv')
  moreover have "length ?col = length (var_names a)" by simp
  moreover have "None \<notin> set ?col" by auto
  moreover have "\<forall>i<length (var_names a).
        unmapped conv_table (var_names a ! i) \<longrightarrow> ?col ! i = Some (var_names a ! i)"
    by (auto simp: unmapped_def symbol_of_def split: option.splits)
  ultimately show ?thesis by blast
qed

text \<open>An instance: the identifier with a row without symbol, and without any row.\<close>

theorem map_to_mgi_fills_missing_symbols_witness:
  "unmapped [(''ENSMUSG1'', None), (''ENSMUSG2'', Some ''Actb'')] ''ENSMUSG1'' \<and>
   map_to_mgi mgi_example [(''ENSMUSG1'', None), (''ENSMUSG2'', Some ''Actb'')] =
     Inr (mgi_example\<lparr>var := [(''mgi_symbols'', [Some ''ENSMUSG1'', Some ''Actb''])]\<rparr>) \<and>
   map_to_mgi mgi_example [(''ENSMUSG2'', Some ''Actb'')] =
     Inr (mgi_example\<lparr>var := [(''mgi_symbols'', [Some ''ENSMUSG1'', Some ''Actb''])]\<rparr>) \<and>
   (\<exists>a' col. map_to_mgi mgi_example [(''ENSMUSG1'', None), (''ENSMUSG2'', Some ''Actb'')] = Inr a' \<and>
      map_of (var a') ''mgi_symbols'' = Some col \<and> None \<notin> set col \<and>
      col ! 0 = Some ''ENSMUSG1'')"
proof -
  have u: "unmapped [(''ENSMUSG1'', None), (''ENSMUSG2'', Some ''Actb'')] ''ENSMUSG1''"
    by code_simp
  have e1: "map_to_mgi mgi_example [(''ENSMUSG1'', None), (''ENSMUSG2'', Some ''Actb'')] =
     Inr (mgi_example\<lparr>var := [(''mgi_symbols'', [Some ''ENSMUSG1'', Some ''Actb''])]\<rparr>)"
    by code_simp
  have e2: "map_to_mgi mgi_example [(''ENSMUSG2'', Some ''Actb'')] =
     Inr (mgi_example\<lparr>var := [(''mgi_symbols'', [Some ''ENSMUSG1'', Some ''Actb''])]\<rparr>)"
    by code_simp
  have v: "var_names mgi_example ! 0 = ''ENSMUSG1''" "0 < length (var_names mgi_example)"
    by (simp_all add: mgi_example_def)
  from map_to_mgi_fills_missing_symbols
    [of mgi_example "[(''ENSMUSG1'', None), (''ENSMUSG2'', Some ''Actb'')]"]
  obtain a' col where
    r: "map_to_mgi mgi_example [(''ENSMUSG1'', None), (''ENSMUSG2'', Some ''Actb'')] = Inr a'"
      "map_of (var a') ''mgi_symbols'' = Some col" "None \<notin> set col"
    and all: "\<forall>i<length (var_names mgi_example).
        unmapped [(''ENSMUSG1'', None), (''ENSMUSG2'', Some ''Actb'')] (var_names mgi_example ! i) \<longrightarrow>
        col ! i = Some (var_names mgi_example ! i)"
    by blast
  from all v u have "col ! 0 = Some ''ENSMUSG1''" by auto
  with r u e1 e2 show ?thesis by blast
qed

end
